theory Spec2Isabelle
  imports Main
begin

section \<open>Tasks, futures and pool objects\<close>

text \<open>
  The header defines two classes: \<^verbatim>\<open>thread_pool\<close>, a queue of type-erased closures
  served by worker threads, and \<^verbatim>\<open>task_pool\<close>, which inherits it privately and
  bounds the queue by \<^verbatim>\<open>max_tasks\<close>.

  A callable returns a value or throws. \<^verbatim>\<open>std::bind(f, args...)\<close> turns a callable and
  its arguments into a closure without parameters; \<^verbatim>\<open>std::packaged_task\<close> pairs that
  closure with a shared state, the cell the future reads. A shared state is identified
  by its address, a natural number here.
\<close>

type_synonym val = int

datatype exn = Exn nat

datatype result = Value val | Failure exn

type_synonym closure = "unit \<Rightarrow> result"

definition std_bind :: "('a \<Rightarrow> result) \<Rightarrow> 'a \<Rightarrow> closure" where
  "std_bind f args = (\<lambda>_. f args)"

text \<open>
  An element of \<^verbatim>\<open>std::queue<std::function<void()>> tasks\<close>: the lambda
  \<^verbatim>\<open>[task]{ (*task)(); }\<close> holding the shared pointer to the packaged task, that is,
  the address of the shared state and the stored closure.
\<close>

type_synonym task = "nat \<times> closure"

text \<open>A worker thread of \<^verbatim>\<open>std::vector<std::thread> workers\<close>, with where it stands
  in its loop. The callbacks given to the constructor live in the closures of the worker
  threads; \<open>enter_cb\<close> and \<open>exit_cb\<close> keep their identities. The mutex and the
  condition variables are part of the submitter's world below. \<^verbatim>\<open>size_t\<close> is \<open>nat\<close>:
  the code compares and takes maxima, it does no arithmetic that could wrap.\<close>

datatype worker = Idle | Holding task | Exited

record thread_pool =
  workers :: "worker list"
  tasks :: "task list"
  stopped :: bool
  enter_cb :: "nat option"
  exit_cb :: "nat option"

record task_pool = thread_pool +
  max_tasks :: nat

datatype error = Assertion_failed | Promise_already_satisfied

section \<open>The world a submitting thread runs in\<close>

text \<open>
  A submitter sees the pool only while it holds \<^verbatim>\<open>queue_mutex\<close>. The mutex is free
  whenever the submitter runs: the other threads hold it only while it is blocked.
  Whenever it blocks on a condition variable the mutex is released and the other
  threads run: one
  \<open>tick\<close> is one unit of time spent blocked, with what the other threads did to
  the queue and to the variables a predicate reads during it, and whether this
  thread was woken at its end (by a notification or spuriously). The schedule
  \<open>sched\<close> lists the ticks to come; after its end nothing happens any more.
\<close>

record tick =
  interfere :: "task list \<Rightarrow> task list"
  ext_next :: "nat \<Rightarrow> nat"
  notified :: bool

datatype event =
    Packed nat
  | Locked
  | Unlocked
  | Evaluated bool
  | Pushed nat
  | Notified_one
  | Dequeued nat nat
  | Began nat nat

record 'p world =
  pool :: 'p
  owns :: bool
  now :: nat
  ext :: nat
  sched :: "tick list"
  cells :: "nat \<Rightarrow> result option"
  next_id :: nat
  log :: "event list"

type_synonym 'p waiter = "'p world \<Rightarrow> 'p world option"

type_synonym 'a outcome = "(error + 'a) option"

subsection \<open>Mutex and condition variable\<close>

definition lock :: "'p world \<Rightarrow> 'p world" where
  "lock s = s\<lparr>owns := True, log := log s @ [Locked]\<rparr>"

definition unlock :: "'p world \<Rightarrow> 'p world" where
  "unlock s = s\<lparr>owns := False, log := log s @ [Unlocked]\<rparr>"

definition notify_one :: "'p world \<Rightarrow> 'p world" where
  "notify_one s = s\<lparr>log := log s @ [Notified_one]\<rparr>"

definition pass :: "tick \<Rightarrow> 'm thread_pool_scheme world \<Rightarrow> 'm thread_pool_scheme world" where
  "pass e s = s\<lparr>pool := (pool s)\<lparr>tasks := interfere e (tasks (pool s))\<rparr>,
                 ext := ext_next e (ext s),
                 now := Suc (now s),
                 sched := tl (sched s)\<rparr>"

text \<open>Blocked without a deadline: the thread sleeps through the ticks until one wakes
  it. When the schedule ends first it sleeps for ever.\<close>

function blocked :: "'m thread_pool_scheme world \<Rightarrow> 'm thread_pool_scheme world option" where
  "blocked s =
     (case sched s of
        [] \<Rightarrow> None
      | e # es \<Rightarrow> if notified e then Some (pass e s) else blocked (pass e s))"
  by pat_completeness auto
termination
  by (relation "measure (\<lambda>s. length (sched s))") (auto simp: pass_def)

declare blocked.simps [simp del]

text \<open>\<^verbatim>\<open>std::condition_variable::wait(lck)\<close>: release, block, reacquire.\<close>

definition cv_wait :: "'m thread_pool_scheme world \<Rightarrow> 'm thread_pool_scheme world option" where
  "cv_wait s = map_option lock (blocked (unlock s))"

datatype cv_status = no_timeout | timeout

text \<open>Blocked with a deadline. The wait yields the mutex for at least one tick, also
  when the deadline has passed already; the clock decides between
  \<open>timeout\<close> and \<open>no_timeout\<close> when the thread runs again.\<close>

function blocked_until :: "nat \<Rightarrow> 'm thread_pool_scheme world \<Rightarrow> cv_status \<times> 'm thread_pool_scheme world" where
  "blocked_until T s =
     (case sched s of
        [] \<Rightarrow> (timeout, s\<lparr>now := max (Suc (now s)) T\<rparr>)
      | e # es \<Rightarrow>
          if T \<le> Suc (now s) then (timeout, pass e s)
          else if notified e then (no_timeout, pass e s)
          else blocked_until T (pass e s))"
  by pat_completeness auto
termination
  by (relation "measure (\<lambda>(T, s). length (sched s))") (auto simp: pass_def)

declare blocked_until.simps [simp del]

text \<open>\<^verbatim>\<open>std::condition_variable::wait_until(lck, abs_time)\<close>.\<close>

definition cv_wait_until :: "nat \<Rightarrow> 'm thread_pool_scheme world \<Rightarrow> cv_status \<times> 'm thread_pool_scheme world" where
  "cv_wait_until T s = (case blocked_until T (unlock s) of (st, s') \<Rightarrow> (st, lock s'))"

definition evaluate :: "('p world \<Rightarrow> bool) \<Rightarrow> 'p world \<Rightarrow> 'p world" where
  "evaluate pred s = s\<lparr>log := log s @ [Evaluated (pred s)]\<rparr>"

text \<open>\<^verbatim>\<open>wait(lck, pred)\<close>, by the standard \<^verbatim>\<open>while(!pred()) wait(lck);\<close>.\<close>

function cv_wait_pred ::
  "('m thread_pool_scheme world \<Rightarrow> bool) \<Rightarrow> 'm thread_pool_scheme world
    \<Rightarrow> 'm thread_pool_scheme world option" where
  "cv_wait_pred pred s =
     (if pred s then Some (evaluate pred s)
      else case cv_wait (evaluate pred s) of
             None \<Rightarrow> None
           | Some s' \<Rightarrow> cv_wait_pred pred s')"
  by pat_completeness auto
termination
proof -
  have shorter: "length (sched s') < length (sched s)" if "blocked s = Some s'"
    for s s' :: "'m thread_pool_scheme world"
    using that
  proof (induction s rule: blocked.induct)
    case (1 s)
    then show ?case
      by (subst (asm) (2) blocked.simps)
         (fastforce simp: pass_def split: list.splits if_splits)
  qed
  show ?thesis
    by (relation "measure (\<lambda>(pred, s). length (sched s))")
       (auto simp: cv_wait_def lock_def unlock_def evaluate_def dest!: shorter)
qed

declare cv_wait_pred.simps [simp del]

text \<open>\<^verbatim>\<open>wait_until(lck, abs_time, pred)\<close>, by the standard
  \<^verbatim>\<open>while(!pred()) if(wait_until(lck, abs_time) == cv_status::timeout) return pred(); return true;\<close>.\<close>

function cv_wait_until_pred ::
  "nat \<Rightarrow> ('m thread_pool_scheme world \<Rightarrow> bool) \<Rightarrow> 'm thread_pool_scheme world
    \<Rightarrow> bool \<times> 'm thread_pool_scheme world" where
  "cv_wait_until_pred T pred s =
     (if pred s then (True, evaluate pred s)
      else case cv_wait_until T (evaluate pred s) of
             (timeout, s') \<Rightarrow> (pred s', evaluate pred s')
           | (no_timeout, s') \<Rightarrow> cv_wait_until_pred T pred s')"
  by pat_completeness auto
termination
proof -
  have shorter: "length (sched s') < length (sched s)" if "blocked_until T s = (no_timeout, s')"
    for T and s s' :: "'m thread_pool_scheme world"
    using that
  proof (induction T s rule: blocked_until.induct)
    case (1 T s)
    then show ?case
      by (subst (asm) (2) blocked_until.simps)
         (fastforce simp: pass_def split: list.splits if_splits)
  qed
  show ?thesis
    by (relation "measure (\<lambda>(T, pred, s). length (sched s))")
       (auto simp: cv_wait_until_def lock_def unlock_def evaluate_def
             split: prod.splits dest!: shorter)
qed

declare cv_wait_until_pred.simps [simp del]

text \<open>\<^verbatim>\<open>wait_for(lck, rel_time, pred)\<close> is
  \<^verbatim>\<open>wait_until(lck, steady_clock::now() + rel_time, pred)\<close>.\<close>

definition cv_wait_for_pred ::
  "nat \<Rightarrow> ('m thread_pool_scheme world \<Rightarrow> bool) \<Rightarrow> 'm thread_pool_scheme world
    \<Rightarrow> bool \<times> 'm thread_pool_scheme world" where
  "cv_wait_for_pred rel pred s = cv_wait_until_pred (now s + rel) pred s"

section \<open>\<^verbatim>\<open>thread_pool\<close>\<close>

text \<open>\<^verbatim>\<open>pack_shared_task\<close>: \<^verbatim>\<open>std::make_shared\<close> of a packaged task around
  \<^verbatim>\<open>std::bind(f, args...)\<close>, with a fresh, empty shared state.\<close>

definition pack_shared_task :: "('a \<Rightarrow> result) \<Rightarrow> 'a \<Rightarrow> 'p world \<Rightarrow> task \<times> 'p world" where
  "pack_shared_task f args s =
     ((next_id s, std_bind f args),
      s\<lparr>cells := (cells s)(next_id s := None),
        next_id := Suc (next_id s),
        log := log s @ [Packed (next_id s)]\<rparr>)"

definition get_future :: "task \<Rightarrow> nat" where
  "get_future t = fst t"

definition size_unlocked :: "'m thread_pool_scheme \<Rightarrow> nat" where
  "size_unlocked p = length (tasks p)"

definition push :: "task \<Rightarrow> 'm thread_pool_scheme world \<Rightarrow> 'm thread_pool_scheme world" where
  "push t s = s\<lparr>pool := (pool s)\<lparr>tasks := tasks (pool s) @ [t]\<rparr>,
                 log := log s @ [Pushed (fst t)]\<rparr>"

text \<open>\<^verbatim>\<open>thread_pool::wait_to_enqueue\<close>. \<open>None\<close>: the call never returns (the wait
  policy does not). \<open>Inl Assertion_failed\<close>: \<^verbatim>\<open>assert(lck.owns_lock())\<close> fails.
  The lock guard's scope ends after the push, which unlocks.\<close>

definition thread_pool_wait_to_enqueue ::
  "'m thread_pool_scheme waiter \<Rightarrow> ('a \<Rightarrow> result) \<Rightarrow> 'a \<Rightarrow> 'm thread_pool_scheme world
    \<Rightarrow> (nat \<times> 'm thread_pool_scheme world) outcome" where
  "thread_pool_wait_to_enqueue wait f args s =
     (case pack_shared_task f args s of (task, s1) \<Rightarrow>
        (let res = get_future task in
         (case wait (lock s1) of
            None \<Rightarrow> None
          | Some s3 \<Rightarrow>
              if \<not> owns s3 then Some (Inl Assertion_failed)
              else Some (Inr (res, notify_one (unlock (push task s3)))))))"

definition enqueue ::
  "('a \<Rightarrow> result) \<Rightarrow> 'a \<Rightarrow> 'm thread_pool_scheme world
    \<Rightarrow> (nat \<times> 'm thread_pool_scheme world) outcome" where
  "enqueue f args s = thread_pool_wait_to_enqueue (\<lambda>lck. Some lck) f args s"

section \<open>\<^verbatim>\<open>task_pool\<close>\<close>

text \<open>Modelled from the spec: the constructor of \<^verbatim>\<open>thread_pool\<close> is declared in the
  header and defined elsewhere; it spawns \<open>max(workerCount,1)\<close> worker threads, which
  call \<open>onEnter\<close> and then serve the queue. The queue starts empty, not stopped.\<close>

definition thread_pool_ctor :: "nat \<Rightarrow> nat option \<Rightarrow> nat option \<Rightarrow> thread_pool" where
  "thread_pool_ctor n on_enter on_exit =
     \<lparr>workers = replicate (max n 1) Idle, tasks = [], stopped = False,
      enter_cb = on_enter, exit_cb = on_exit\<rparr>"

text \<open>\<^verbatim>\<open>task_pool::task_pool\<close>: the base is built with \<open>max(n, 1)\<close> workers and
  \<^verbatim>\<open>max_tasks\<close> is set to \<open>max(n, 1)\<close>.\<close>

definition task_pool_ctor :: "nat \<Rightarrow> nat option \<Rightarrow> nat option \<Rightarrow> task_pool" where
  "task_pool_ctor n on_enter on_exit =
     (let base = thread_pool_ctor (max n 1) on_enter on_exit in
      \<lparr>workers = workers base, tasks = tasks base, stopped = stopped base,
       enter_cb = enter_cb base, exit_cb = exit_cb base,
       max_tasks = max n 1\<rparr>)"

definition can_enqueue_unlocked :: "task_pool \<Rightarrow> bool" where
  "can_enqueue_unlocked p = (size_unlocked p < max_tasks p)"

definition get_max_task_num :: "task_pool \<Rightarrow> nat" where
  "get_max_task_num p = max_tasks p"

text \<open>The wait policy that \<^verbatim>\<open>task_pool::wait_to_enqueue\<close> hands to the base class:
  \<^verbatim>\<open>while(!can_enqueue_unlocked()) wait(lck);\<close>. The loop need not end.\<close>

partial_function (option) while_cannot_enqueue ::
  "task_pool waiter \<Rightarrow> task_pool world \<Rightarrow> task_pool world option" where
  [code]: "while_cannot_enqueue wait s =
     (if can_enqueue_unlocked (pool s) then Some s
      else Option.bind (wait s) (while_cannot_enqueue wait))"

definition task_pool_wait_to_enqueue ::
  "task_pool waiter \<Rightarrow> ('a \<Rightarrow> result) \<Rightarrow> 'a \<Rightarrow> task_pool world
    \<Rightarrow> (nat \<times> task_pool world) outcome" where
  "task_pool_wait_to_enqueue wait f args s =
     thread_pool_wait_to_enqueue (while_cannot_enqueue wait) f args s"

text \<open>A caller's predicate reads the clock and the caller's own variables.\<close>

type_synonym poller = "nat \<Rightarrow> nat \<Rightarrow> bool"

definition combined :: "poller \<Rightarrow> task_pool world \<Rightarrow> bool" where
  "combined poller s = (poller (now s) (ext s) \<and> can_enqueue_unlocked (pool s))"

definition poll ::
  "poller \<Rightarrow> ('a \<Rightarrow> result) \<Rightarrow> 'a \<Rightarrow> task_pool world \<Rightarrow> (nat \<times> task_pool world) outcome" where
  "poll poller f args s =
     task_pool_wait_to_enqueue (\<lambda>lck. cv_wait_pred (combined poller) lck) f args s"

definition poll_for ::
  "poller \<Rightarrow> nat \<Rightarrow> ('a \<Rightarrow> result) \<Rightarrow> 'a \<Rightarrow> task_pool world
    \<Rightarrow> (nat \<times> task_pool world) outcome" where
  "poll_for poller duration f args s =
     task_pool_wait_to_enqueue
       (\<lambda>lck. Some (snd (cv_wait_for_pred duration (combined poller) lck))) f args s"

definition poll_until ::
  "poller \<Rightarrow> nat \<Rightarrow> ('a \<Rightarrow> result) \<Rightarrow> 'a \<Rightarrow> task_pool world
    \<Rightarrow> (nat \<times> task_pool world) outcome" where
  "poll_until poller abs_time f args s =
     task_pool_wait_to_enqueue
       (\<lambda>lck. Some (snd (cv_wait_until_pred abs_time (combined poller) lck))) f args s"

definition wait ::
  "('a \<Rightarrow> result) \<Rightarrow> 'a \<Rightarrow> task_pool world \<Rightarrow> (nat \<times> task_pool world) outcome" where
  "wait f args s = poll (\<lambda>_ _. True) f args s"

definition wait_for ::
  "nat \<Rightarrow> ('a \<Rightarrow> result) \<Rightarrow> 'a \<Rightarrow> task_pool world \<Rightarrow> (nat \<times> task_pool world) outcome" where
  "wait_for duration f args s = poll_for (\<lambda>_ _. True) duration f args s"

definition wait_until ::
  "nat \<Rightarrow> ('a \<Rightarrow> result) \<Rightarrow> 'a \<Rightarrow> task_pool world \<Rightarrow> (nat \<times> task_pool world) outcome" where
  "wait_until abs_time f args s = poll_until (\<lambda>_ _. True) abs_time f args s"

text \<open>The public submission members of \<^verbatim>\<open>task_pool\<close>. The base class is inherited
  privately and only \<^verbatim>\<open>size\<close> is re-exported by a using-declaration, so these seven
  are all the ways to submit to a \<^verbatim>\<open>task_pool\<close>.\<close>

datatype submission =
    Poll poller
  | Poll_for poller nat
  | Poll_until poller nat
  | Wait
  | Wait_for nat
  | Wait_until nat
  | Wait_to_enqueue "task_pool waiter"

fun submit ::
  "submission \<Rightarrow> ('a \<Rightarrow> result) \<Rightarrow> 'a \<Rightarrow> task_pool world \<Rightarrow> (nat \<times> task_pool world) outcome" where
  "submit (Poll poller) f args s = poll poller f args s"
| "submit (Poll_for poller duration) f args s = poll_for poller duration f args s"
| "submit (Poll_until poller abs_time) f args s = poll_until poller abs_time f args s"
| "submit Wait f args s = wait f args s"
| "submit (Wait_for duration) f args s = wait_for duration f args s"
| "submit (Wait_until abs_time) f args s = wait_until abs_time f args s"
| "submit (Wait_to_enqueue waiter) f args s = task_pool_wait_to_enqueue waiter f args s"

section \<open>Workers and futures\<close>

text \<open>\<^verbatim>\<open>(*task)()\<close>, the body of the queued lambda: \<^verbatim>\<open>std::packaged_task::operator()\<close>
  runs the stored closure and stores what it returns or throws in the shared state;
  on a shared state that is set already it throws \<^verbatim>\<open>std::future_error\<close>.\<close>

definition packaged_task_call :: "task \<Rightarrow> 'p world \<Rightarrow> error + 'p world" where
  "packaged_task_call t s =
     (case cells s (fst t) of
        Some r \<Rightarrow> Inl Promise_already_satisfied
      | None \<Rightarrow> Inr (s\<lparr>cells := (cells s)(fst t := Some (snd t ()))\<rparr>))"

text \<open>\<^verbatim>\<open>std::future::get\<close> on a ready shared state: the value, or the stored exception
  rethrown (\<open>Inl\<close>). \<open>None\<close>: not ready, the caller blocks.\<close>

definition future_get :: "nat \<Rightarrow> 'p world \<Rightarrow> (exn + val) option" where
  "future_get h s =
     (case cells s h of
        None \<Rightarrow> None
      | Some (Value v) \<Rightarrow> Some (Inr v)
      | Some (Failure e) \<Rightarrow> Some (Inl e))"

text \<open>Modelled from the spec: the worker loop, which the constructor of
  \<^verbatim>\<open>thread_pool\<close> starts and the header does not show. A worker acquires the lock and
  waits until the queue is non-empty or the stop flag is set; if the flag is set and the
  queue is empty it calls \<open>onExit\<close> and terminates; otherwise it pops the front task,
  releases the lock, executes the task outside the lock, and loops.
  \<open>worker_take i\<close> is worker \<open>i\<close>'s section under the lock, \<open>worker_run i\<close> the
  execution outside it. An exception that left the queued lambda would end the thread.\<close>

definition worker_take :: "nat \<Rightarrow> 'm thread_pool_scheme world \<Rightarrow> 'm thread_pool_scheme world" where
  "worker_take i s =
     (let p = pool s in
      if i < length (workers p) \<and> workers p ! i = Idle then
        (case tasks p of
           [] \<Rightarrow> if stopped p then s\<lparr>pool := p\<lparr>workers := (workers p)[i := Exited]\<rparr>\<rparr> else s
         | t # ts \<Rightarrow>
             s\<lparr>pool := p\<lparr>workers := (workers p)[i := Holding t], tasks := ts\<rparr>,
               log := log s @ [Dequeued i (fst t)]\<rparr>)
      else s)"

definition set_worker :: "nat \<Rightarrow> worker \<Rightarrow> 'm thread_pool_scheme world \<Rightarrow> 'm thread_pool_scheme world" where
  "set_worker i w s = s\<lparr>pool := (pool s)\<lparr>workers := (workers (pool s))[i := w]\<rparr>\<rparr>"

definition worker_run :: "nat \<Rightarrow> 'm thread_pool_scheme world \<Rightarrow> 'm thread_pool_scheme world" where
  "worker_run i s =
     (if i < length (workers (pool s)) then
        (case workers (pool s) ! i of
           Holding t \<Rightarrow>
             (case packaged_task_call t (s\<lparr>log := log s @ [Began i (fst t)]\<rparr>) of
                Inr s' \<Rightarrow> set_worker i Idle s'
              | Inl e \<Rightarrow> set_worker i Exited (s\<lparr>log := log s @ [Began i (fst t)]\<rparr>))
         | Idle \<Rightarrow> s
         | Exited \<Rightarrow> s)
      else s)"

text \<open>Modelled from the spec: \<^verbatim>\<open>task_pool::reset\<close>, declared in the header and
  defined elsewhere. It blocks until all queued and in-flight tasks complete, then
  destroys and reconstructs the underlying pool with the original worker count and
  callbacks, preserving \<^verbatim>\<open>max_tasks\<close>.\<close>

fun held :: "worker list \<Rightarrow> task list" where
  "held [] = []"
| "held (Holding t # ws) = t # held ws"
| "held (w # ws) = held ws"

fun drain :: "task list \<Rightarrow> (nat \<Rightarrow> result option) \<Rightarrow> (nat \<Rightarrow> result option)" where
  "drain [] c = c"
| "drain (t # ts) c =
     drain ts (case c (fst t) of None \<Rightarrow> c(fst t := Some (snd t ())) | Some r \<Rightarrow> c)"

definition reset :: "task_pool world \<Rightarrow> task_pool world" where
  "reset s =
     (let p = pool s;
          base = thread_pool_ctor (length (workers p)) (enter_cb p) (exit_cb p)
      in s\<lparr>cells := drain (held (workers p) @ tasks p) (cells s),
           pool := \<lparr>workers = workers base, tasks = tasks base, stopped = stopped base,
                    enter_cb = enter_cb base, exit_cb = exit_cb base,
                    max_tasks = max_tasks p\<rparr>\<rparr>)"

text \<open>A run of the pool: submissions through \<^verbatim>\<open>thread_pool::enqueue\<close> interleaved
  with the workers' steps. A submission that does not return ends the run.\<close>

datatype 'a action = Submit "'a \<Rightarrow> result" 'a | Take nat | Run nat

fun run :: "'a action list \<Rightarrow> 'm thread_pool_scheme world \<Rightarrow> 'm thread_pool_scheme world option" where
  "run [] s = Some s"
| "run (Submit f args # as) s =
     (case enqueue f args s of
        Some (Inr (h, s')) \<Rightarrow> run as s'
      | Some (Inl e) \<Rightarrow> None
      | None \<Rightarrow> None)"
| "run (Take i # as) s = run as (worker_take i s)"
| "run (Run i # as) s = run as (worker_run i s)"

fun pushed_of :: "event list \<Rightarrow> nat list" where
  "pushed_of [] = []"
| "pushed_of (Pushed h # es) = h # pushed_of es"
| "pushed_of (e # es) = pushed_of es"

fun dequeued_of :: "event list \<Rightarrow> nat list" where
  "dequeued_of [] = []"
| "dequeued_of (Dequeued i h # es) = h # dequeued_of es"
| "dequeued_of (e # es) = dequeued_of es"

fun began_of :: "event list \<Rightarrow> nat list" where
  "began_of [] = []"
| "began_of (Began i h # es) = h # began_of es"
| "began_of (e # es) = began_of es"



section \<open>Reading the event log\<close>

text \<open>The events of a predicated wait that had to block \<open>k\<close> times: each failed
  evaluation is followed by a release and a reacquisition, and the wait ends with an
  evaluation.\<close>

definition rounds :: "nat \<Rightarrow> event list" where
  "rounds k = concat (replicate k [Evaluated False, Unlocked, Locked])"

text \<open>Two readings of the event log against the pool. \<open>fifo\<close>: the handles
  dequeued so far, followed by those still queued, are the handles pushed, in the order
  of the pushes. \<open>in_order\<close>: the handles whose execution has begun, followed by those
  a worker holds, are the handles dequeued, in the order of dequeuing.\<close>

definition fifo :: "'m thread_pool_scheme world \<Rightarrow> bool" where
  "fifo s = (pushed_of (log s) = dequeued_of (log s) @ map fst (tasks (pool s)))"

definition in_order :: "'m thread_pool_scheme world \<Rightarrow> bool" where
  "in_order s = (began_of (log s) @ map fst (held (workers (pool s))) = dequeued_of (log s))"

section \<open>Example inputs\<close>

text \<open>Ticks: nothing happens; a spurious wake; a worker pops the front task silently;
  a worker pops the front task and this thread is woken.\<close>

definition quiet :: tick where
  "quiet = \<lparr>interfere = (\<lambda>q. q), ext_next = (\<lambda>x. x), notified = False\<rparr>"

definition spurious :: tick where
  "spurious = \<lparr>interfere = (\<lambda>q. q), ext_next = (\<lambda>x. x), notified = True\<rparr>"

definition popped :: tick where
  "popped = \<lparr>interfere = tl, ext_next = (\<lambda>x. x), notified = False\<rparr>"

definition served :: tick where
  "served = \<lparr>interfere = tl, ext_next = (\<lambda>x. x), notified = True\<rparr>"

definition job :: "int \<Rightarrow> result" where
  "job x = Value (x + 1)"

definition failing :: "int \<Rightarrow> result" where
  "failing x = Failure (Exn 3)"

text \<open>A world around a pool built for \<open>n\<close> workers, with the given queue and schedule.\<close>

definition world_of :: "nat \<Rightarrow> task list \<Rightarrow> tick list \<Rightarrow> task_pool world" where
  "world_of n q ticks =
     \<lparr>pool = (task_pool_ctor n None None)\<lparr>tasks := q\<rparr>, owns = False, now = 0, ext = 0,
      sched = ticks, cells = (\<lambda>h. None), next_id = 0, log = []\<rparr>"

section \<open>Properties of the waiting primitives\<close>

lemma blocked_frame:
  "blocked s = Some s' \<Longrightarrow>
     owns s' = owns s \<and> log s' = log s \<and> cells s' = cells s \<and> next_id s' = next_id s
     \<and> workers (pool s') = workers (pool s) \<and> stopped (pool s') = stopped (pool s)
     \<and> thread_pool.more (pool s') = thread_pool.more (pool s) \<and> now s < now s'"
proof (induction s rule: blocked.induct)
  case (1 s)
  show ?case
  proof (cases "sched s")
    case Nil
    with "1.prems" show ?thesis by (simp add: blocked.simps)
  next
    case (Cons e es)
    show ?thesis
    proof (cases "notified e")
      case True
      with Cons "1.prems" show ?thesis by (auto simp: blocked.simps [of s] pass_def)
    next
      case False
      with Cons "1.prems" have "blocked (pass e s) = Some s'" by (simp add: blocked.simps [of s])
      from "1.IH" [OF Cons False this] show ?thesis by (simp add: pass_def)
    qed
  qed
qed

lemma blocked_until_frame:
  "blocked_until T s = (st, s') \<Longrightarrow>
     owns s' = owns s \<and> log s' = log s \<and> cells s' = cells s \<and> next_id s' = next_id s
     \<and> workers (pool s') = workers (pool s) \<and> stopped (pool s') = stopped (pool s)
     \<and> thread_pool.more (pool s') = thread_pool.more (pool s)
     \<and> now s < now s' \<and> now s' \<le> max (Suc (now s)) T \<and> (st = no_timeout \<longrightarrow> now s' < T)"
proof (induction T s rule: blocked_until.induct)
  case (1 T s)
  show ?case
  proof (cases "sched s")
    case Nil
    with "1.prems" show ?thesis by (auto simp: blocked_until.simps [of T s])
  next
    case (Cons e es)
    show ?thesis
    proof (cases "T \<le> Suc (now s)")
      case True
      with Cons "1.prems" show ?thesis by (auto simp: blocked_until.simps [of T s] pass_def)
    next
      case late: False
      show ?thesis
      proof (cases "notified e")
        case True
        with late Cons "1.prems" show ?thesis by (auto simp: blocked_until.simps [of T s] pass_def)
      next
        case False
        with late Cons "1.prems" have "blocked_until T (pass e s) = (st, s')"
          by (simp add: blocked_until.simps [of T s])
        from "1.IH" [OF Cons late False this] late show ?thesis by (auto simp: pass_def)
      qed
    qed
  qed
qed

lemma max_tasks_more: "thread_pool.more (p :: task_pool) = thread_pool.more q \<Longrightarrow> max_tasks p = max_tasks q"
  by (cases p, cases q) simp

lemma cv_wait_frame:
  "cv_wait s = Some s' \<Longrightarrow>
     owns s' \<and> log s' = log s @ [Unlocked, Locked] \<and> cells s' = cells s \<and> next_id s' = next_id s
     \<and> workers (pool s') = workers (pool s) \<and> stopped (pool s') = stopped (pool s)
     \<and> thread_pool.more (pool s') = thread_pool.more (pool s) \<and> now s < now s'"
  by (auto simp: cv_wait_def lock_def unlock_def dest!: blocked_frame)

lemma cv_wait_until_frame:
  "cv_wait_until T s = (st, s') \<Longrightarrow>
     owns s' \<and> log s' = log s @ [Unlocked, Locked] \<and> cells s' = cells s \<and> next_id s' = next_id s
     \<and> workers (pool s') = workers (pool s) \<and> stopped (pool s') = stopped (pool s)
     \<and> thread_pool.more (pool s') = thread_pool.more (pool s)
     \<and> now s < now s' \<and> now s' \<le> max (Suc (now s)) T \<and> (st = no_timeout \<longrightarrow> now s' < T)"
  by (auto simp: cv_wait_until_def lock_def unlock_def split: prod.splits dest!: blocked_until_frame)

lemma rounds_Suc: "[Evaluated False, Unlocked, Locked] @ rounds k = rounds (Suc k)"
  by (simp add: rounds_def)

lemma combined_evaluate [simp]: "combined p (evaluate q s) = combined p s"
  by (simp add: combined_def evaluate_def)

lemma cv_wait_pred_frame:
  "cv_wait_pred (combined p) s = Some s' \<Longrightarrow>
     combined p s' \<and> (owns s \<longrightarrow> owns s') \<and> (\<exists>k. log s' = log s @ rounds k @ [Evaluated True])
     \<and> cells s' = cells s \<and> next_id s' = next_id s
     \<and> workers (pool s') = workers (pool s) \<and> stopped (pool s') = stopped (pool s)
     \<and> max_tasks (pool s') = max_tasks (pool s) \<and> now s \<le> now s'"
proof (induction "combined p" s rule: cv_wait_pred.induct)
  case (1 s)
  show ?case
  proof (cases "combined p s")
    case True
    with "1.prems" have "s' = evaluate (combined p) s" by (simp add: cv_wait_pred.simps [of _ s])
    with True show ?thesis
      by (auto simp: evaluate_def rounds_def combined_def intro: exI [of _ 0])
  next
    case False
    with "1.prems" obtain s1 where w: "cv_wait (evaluate (combined p) s) = Some s1"
      and r: "cv_wait_pred (combined p) s1 = Some s'"
      by (auto simp: cv_wait_pred.simps [of _ s] split: option.splits)
    from "1.hyps" [OF False w r] obtain k where
      k: "log s' = log s1 @ rounds k @ [Evaluated True]" and
      rest: "combined p s'" "owns s1 \<longrightarrow> owns s'" "cells s' = cells s1" "next_id s' = next_id s1"
        "workers (pool s') = workers (pool s1)" "stopped (pool s') = stopped (pool s1)"
        "max_tasks (pool s') = max_tasks (pool s1)" "now s1 \<le> now s'"
      by blast
    from cv_wait_frame [OF w] False
    have f: "owns s1" "log s1 = log s @ [Evaluated False, Unlocked, Locked]" "cells s1 = cells s"
      "next_id s1 = next_id s" "workers (pool s1) = workers (pool s)"
      "stopped (pool s1) = stopped (pool s)" "max_tasks (pool s1) = max_tasks (pool s)"
      "now s < now s1"
      by (auto simp: evaluate_def dest: max_tasks_more)
    have "log s' = log s @ rounds (Suc k) @ [Evaluated True]"
      using k f(2) by (simp add: rounds_def)
    with rest f show ?thesis by auto
  qed
qed

lemma cv_wait_until_pred_frame:
  "cv_wait_until_pred T (combined p) s = (b, s') \<Longrightarrow>
     b = combined p s' \<and> (owns s \<longrightarrow> owns s')
     \<and> cells s' = cells s \<and> next_id s' = next_id s
     \<and> workers (pool s') = workers (pool s) \<and> stopped (pool s') = stopped (pool s)
     \<and> max_tasks (pool s') = max_tasks (pool s)
     \<and> now s \<le> now s' \<and> now s' \<le> max (Suc (now s)) T"
proof (induction T "combined p" s rule: cv_wait_until_pred.induct)
  case (1 T s)
  show ?case
  proof (cases "combined p s")
    case True
    with "1.prems" have "s' = evaluate (combined p) s" "b"
      by (simp_all add: cv_wait_until_pred.simps [of _ _ s])
    with True show ?thesis by (auto simp: evaluate_def combined_def)
  next
    case False
    obtain st s1 where w: "cv_wait_until T (evaluate (combined p) s) = (st, s1)"
      by (cases "cv_wait_until T (evaluate (combined p) s)")
    from cv_wait_until_frame [OF w]
    have f: "owns s1" "cells s1 = cells s"
      "next_id s1 = next_id s" "workers (pool s1) = workers (pool s)"
      "stopped (pool s1) = stopped (pool s)" "max_tasks (pool s1) = max_tasks (pool s)"
      "now s < now s1" "now s1 \<le> max (Suc (now s)) T" "st = no_timeout \<longrightarrow> now s1 < T"
      by (auto simp: evaluate_def dest: max_tasks_more)
    show ?thesis
    proof (cases st)
      case timeout
      with False w "1.prems" have "s' = evaluate (combined p) s1" "b = combined p s1"
        by (simp_all add: cv_wait_until_pred.simps [of _ _ s])
      with f show ?thesis by (auto simp: evaluate_def combined_def)
    next
      case no_timeout
      with False w "1.prems" have r: "cv_wait_until_pred T (combined p) s1 = (b, s')"
        by (simp add: cv_wait_until_pred.simps [of _ _ s])
      from "1.hyps" [OF False w [symmetric] no_timeout r] f no_timeout show ?thesis by auto
    qed
  qed
qed

lemma while_cannot_enqueue_exit:
  "while_cannot_enqueue w s = Some s' \<Longrightarrow> can_enqueue_unlocked (pool s')"
proof (induction rule: while_cannot_enqueue.raw_induct [rotated 1, consumes 1])
  case (1 loop w s s')
  then show ?case
    by (auto split: if_splits simp: bind_eq_Some_conv)
qed

lemma while_cannot_enqueue_inv:
  assumes "while_cannot_enqueue w s = Some s'" and "P s"
    and step: "\<And>x y. P x \<Longrightarrow> w x = Some y \<Longrightarrow> P y"
  shows "P s'"
proof -
  have "while_cannot_enqueue w s = Some s' \<Longrightarrow>
      P s \<longrightarrow> (\<forall>x y. P x \<longrightarrow> w x = Some y \<longrightarrow> P y) \<longrightarrow> P s'"
  proof (induction rule: while_cannot_enqueue.raw_induct [rotated 1, consumes 1])
    case (1 loop w s s')
    show ?case
    proof (cases "can_enqueue_unlocked (pool s)")
      case True
      with "1.hyps" show ?thesis by simp
    next
      case False
      with "1.hyps" obtain s1 where "w s = Some s1" "loop w s1 = Some s'"
        by (auto simp: bind_eq_Some_conv)
      with "1.IH" [of w s1 s'] show ?thesis by blast
    qed
  qed
  with assms show ?thesis by blast
qed

lemma wait_to_enqueue_returns:
  "thread_pool_wait_to_enqueue w f args s = Some (Inr (h, s')) \<Longrightarrow>
     \<exists>s3. w (lock (snd (pack_shared_task f args s))) = Some s3 \<and> owns s3 \<and> h = next_id s
       \<and> s' = notify_one (unlock (push (next_id s, std_bind f args) s3))"
  by (auto simp: thread_pool_wait_to_enqueue_def pack_shared_task_def get_future_def
      split: option.splits if_splits)

lemma finish_fields:
  "tasks (pool (notify_one (unlock (push t s)))) = tasks (pool s) @ [t]"
  "log (notify_one (unlock (push t s))) = log s @ [Pushed (fst t), Unlocked, Notified_one]"
  "owns (notify_one (unlock (push t s))) = False"
  "now (notify_one (unlock (push t s))) = now s"
  "ext (notify_one (unlock (push t s))) = ext s"
  "sched (notify_one (unlock (push t s))) = sched s"
  "cells (notify_one (unlock (push t s))) = cells s"
  "next_id (notify_one (unlock (push t s))) = next_id s"
  "workers (pool (notify_one (unlock (push t s)))) = workers (pool s)"
  "stopped (pool (notify_one (unlock (push t s)))) = stopped (pool s)"
  "thread_pool.more (pool (notify_one (unlock (push t s)))) = thread_pool.more (pool s)"
  by (simp_all add: notify_one_def unlock_def push_def)

lemma finish_max_tasks:
  "max_tasks (pool (notify_one (unlock (push t s)))) = max_tasks (pool s)"
  by (simp add: notify_one_def unlock_def push_def)

lemma entry_fields:
  "pool (lock (snd (pack_shared_task f args s))) = pool s"
  "owns (lock (snd (pack_shared_task f args s)))"
  "log (lock (snd (pack_shared_task f args s))) = log s @ [Packed (next_id s), Locked]"
  "now (lock (snd (pack_shared_task f args s))) = now s"
  "ext (lock (snd (pack_shared_task f args s))) = ext s"
  "sched (lock (snd (pack_shared_task f args s))) = sched s"
  "cells (lock (snd (pack_shared_task f args s))) = (cells s)(next_id s := None)"
  "next_id (lock (snd (pack_shared_task f args s))) = Suc (next_id s)"
  by (simp_all add: lock_def pack_shared_task_def)

text \<open>What each public submission hands to the capacity loop.\<close>

lemma submit_gated:
  "\<exists>w. submit opn f args s = thread_pool_wait_to_enqueue (while_cannot_enqueue w) f args s"
  by (cases opn)
     (auto simp: poll_def poll_for_def poll_until_def wait_def wait_for_def wait_until_def
        task_pool_wait_to_enqueue_def)

lemma submit_admits:
  assumes "submit opn f args s = Some (Inr (h, s'))"
  shows "\<exists>s1. owns s1 \<and> can_enqueue_unlocked (pool s1) \<and> h = next_id s
      \<and> s' = notify_one (unlock (push (next_id s, std_bind f args) s1))"
proof -
  from submit_gated [of opn f args s] obtain w where
    "submit opn f args s = thread_pool_wait_to_enqueue (while_cannot_enqueue w) f args s"
    by blast
  with assms wait_to_enqueue_returns [of "while_cannot_enqueue w" f args s h s']
  obtain s3 where "while_cannot_enqueue w (lock (snd (pack_shared_task f args s))) = Some s3"
    "owns s3" "h = next_id s" "s' = notify_one (unlock (push (next_id s, std_bind f args) s3))"
    by auto
  with while_cannot_enqueue_exit show ?thesis by blast
qed

lemma worker_take_queue:
  "length (tasks (pool (worker_take i s))) \<le> length (tasks (pool s))"
  "thread_pool.more (pool (worker_take i s)) = thread_pool.more (pool s)"
  by (auto simp: worker_take_def Let_def split: list.splits)

lemma worker_run_queue:
  "tasks (pool (worker_run i s)) = tasks (pool s)"
  "thread_pool.more (pool (worker_run i s)) = thread_pool.more (pool s)"
  by (auto simp: worker_run_def set_worker_def packaged_task_call_def
      split: worker.splits option.splits)

lemma submit_bounded:
  assumes "submit opn f args s = Some (Inr (h, s'))"
  shows "size_unlocked (pool s') \<le> max_tasks (pool s')"
proof -
  from submit_admits [OF assms] obtain s1 where
    "can_enqueue_unlocked (pool s1)" "s' = notify_one (unlock (push (next_id s, std_bind f args) s1))"
    by blast
  then show ?thesis
    by (simp add: can_enqueue_unlocked_def size_unlocked_def finish_fields finish_max_tasks)
qed


lemmas model_defs =
  poll_def poll_for_def poll_until_def wait_def wait_for_def wait_until_def
  task_pool_wait_to_enqueue_def thread_pool_wait_to_enqueue_def enqueue_def
  pack_shared_task_def get_future_def std_bind_def
  lock_def unlock_def notify_one_def push_def pass_def evaluate_def combined_def
  can_enqueue_unlocked_def size_unlocked_def get_max_task_num_def
  task_pool_ctor_def thread_pool_ctor_def
  cv_wait_def cv_wait_until_def cv_wait_for_pred_def
  blocked.simps blocked_until.simps cv_wait_pred.simps cv_wait_until_pred.simps
  while_cannot_enqueue.simps
  worker_take_def worker_run_def set_worker_def packaged_task_call_def future_get_def
  reset_def

lemmas example_defs = world_of_def quiet_def spurious_def popped_def served_def job_def failing_def



lemma poll_waited:
  assumes "\<not> can_enqueue_unlocked (pool s)" and "cv_wait_pred (combined p) s = Some s'"
  shows "combined p s' \<and> (owns s \<longrightarrow> owns s')
     \<and> (\<exists>k. log s' = log s @ rounds (Suc k) @ [Evaluated True])"
proof -
  from assms(1) have nc: "\<not> combined p s" by (simp add: combined_def)
  with assms(2) obtain s1 where w: "cv_wait (evaluate (combined p) s) = Some s1"
    and r: "cv_wait_pred (combined p) s1 = Some s'"
    by (auto simp: cv_wait_pred.simps [of _ s] split: option.splits)
  from cv_wait_frame [OF w] nc have l1: "log s1 = log s @ [Evaluated False, Unlocked, Locked]"
    and o1: "owns s1"
    by (simp_all add: evaluate_def)
  from cv_wait_pred_frame [OF r] obtain k where "combined p s'" "owns s1 \<longrightarrow> owns s'"
    "log s' = log s1 @ rounds k @ [Evaluated True]" by blast
  with l1 o1 have "combined p s'" "owns s'" "log s' = log s @ rounds (Suc k) @ [Evaluated True]"
    by (simp_all add: rounds_def)
  then show ?thesis by blast
qed

lemma gated_max_tasks:
  assumes frame: "\<And>x y. w x = Some y \<Longrightarrow> max_tasks (pool y) = max_tasks (pool x)"
    and r: "thread_pool_wait_to_enqueue (while_cannot_enqueue w) f args s = Some (Inr (h, s'))"
  shows "max_tasks (pool s') = max_tasks (pool s)"
proof -
  let ?s0 = "lock (snd (pack_shared_task f args s))"
  from wait_to_enqueue_returns [OF r] obtain s3 where
    loop: "while_cannot_enqueue w ?s0 = Some s3"
    and s': "s' = notify_one (unlock (push (next_id s, std_bind f args) s3))"
    by blast
  have "max_tasks (pool s3) = max_tasks (pool s)"
    by (rule while_cannot_enqueue_inv [OF loop, where P = "\<lambda>x. max_tasks (pool x) = max_tasks (pool s)"])
       (simp_all add: entry_fields frame)
  with s' show ?thesis by (simp add: finish_max_tasks)
qed

lemma submit_max_tasks:
  assumes frame: "\<And>w x y. opn = Wait_to_enqueue w \<Longrightarrow> w x = Some y
      \<Longrightarrow> max_tasks (pool y) = max_tasks (pool x)"
    and r: "submit opn f args s = Some (Inr (h, s'))"
  shows "max_tasks (pool s') = max_tasks (pool s)"
proof -
  have timed: "max_tasks (pool (snd (cv_wait_until_pred T (combined p) x))) = max_tasks (pool x)"
    for T p x
    using cv_wait_until_pred_frame [of T p x "fst (cv_wait_until_pred T (combined p) x)"
        "snd (cv_wait_until_pred T (combined p) x)"]
    by simp
  have plain: "cv_wait_pred (combined p) x = Some y \<Longrightarrow> max_tasks (pool y) = max_tasks (pool x)"
    for p x y
    by (drule cv_wait_pred_frame) simp
  have timed_case: "max_tasks (pool s') = max_tasks (pool s)"
    if "thread_pool_wait_to_enqueue (while_cannot_enqueue
          (\<lambda>lck. Some (snd (cv_wait_until_pred T (combined p) lck)))) f args s = Some (Inr (h, s'))"
    for T p
    by (rule gated_max_tasks [OF _ that]) (auto simp: timed)
  have timed_for_case: "max_tasks (pool s') = max_tasks (pool s)"
    if "thread_pool_wait_to_enqueue (while_cannot_enqueue
          (\<lambda>lck. Some (snd (cv_wait_for_pred d (combined p) lck)))) f args s = Some (Inr (h, s'))"
    for d p
    by (rule gated_max_tasks [OF _ that]) (auto simp: timed cv_wait_for_pred_def)
  have plain_case: "max_tasks (pool s') = max_tasks (pool s)"
    if "thread_pool_wait_to_enqueue (while_cannot_enqueue
          (\<lambda>lck. cv_wait_pred (combined p) lck)) f args s = Some (Inr (h, s'))"
    for p
    by (rule gated_max_tasks [OF _ that]) (rule plain)
  show ?thesis
  proof (cases opn)
    case (Poll p)
    with r show ?thesis
      by (intro plain_case [of p]) (simp add: poll_def task_pool_wait_to_enqueue_def)
  next
    case (Poll_for p d)
    with r show ?thesis
      by (intro timed_for_case [of d p]) (simp add: poll_for_def task_pool_wait_to_enqueue_def)
  next
    case (Poll_until p T)
    with r show ?thesis
      by (intro timed_case [of T p]) (simp add: poll_until_def task_pool_wait_to_enqueue_def)
  next
    case Wait
    with r show ?thesis
      by (intro plain_case [of "\<lambda>_ _. True"])
         (simp add: wait_def poll_def task_pool_wait_to_enqueue_def)
  next
    case (Wait_for d)
    with r show ?thesis
      by (intro timed_for_case [of d "\<lambda>_ _. True"])
         (simp add: wait_for_def poll_for_def task_pool_wait_to_enqueue_def)
  next
    case (Wait_until T)
    with r show ?thesis
      by (intro timed_case [of T "\<lambda>_ _. True"])
         (simp add: wait_until_def poll_until_def task_pool_wait_to_enqueue_def)
  next
    case (Wait_to_enqueue w)
    with r have "thread_pool_wait_to_enqueue (while_cannot_enqueue w) f args s = Some (Inr (h, s'))"
      by (simp add: task_pool_wait_to_enqueue_def)
    then show ?thesis
      by (rule gated_max_tasks [rotated]) (rule frame [OF Wait_to_enqueue])
  qed
qed

lemma pushed_of_append: "pushed_of (xs @ ys) = pushed_of xs @ pushed_of ys"
  by (induction xs rule: pushed_of.induct) simp_all

lemma dequeued_of_append: "dequeued_of (xs @ ys) = dequeued_of xs @ dequeued_of ys"
  by (induction xs rule: dequeued_of.induct) simp_all

lemma began_of_append: "began_of (xs @ ys) = began_of xs @ began_of ys"
  by (induction xs rule: began_of.induct) simp_all

lemma enqueue_result:
  "enqueue f args s = Some (Inr (next_id s,
      notify_one (unlock (push (next_id s, std_bind f args) (lock (snd (pack_shared_task f args s)))))))"
  by (simp add: enqueue_def thread_pool_wait_to_enqueue_def pack_shared_task_def get_future_def
      lock_def)

lemma enqueue_keeps:
  assumes "enqueue f args s = Some (Inr (h, s'))"
  shows "(fifo s \<longrightarrow> fifo s') \<and> (in_order s \<longrightarrow> in_order s') \<and> workers (pool s') = workers (pool s)"
  using assms unfolding enqueue_result
  by (auto simp: fifo_def in_order_def finish_fields entry_fields pushed_of_append
      dequeued_of_append began_of_append)

lemma worker_take_fifo: "fifo s \<Longrightarrow> fifo (worker_take i s)"
  by (auto simp: fifo_def worker_take_def Let_def pushed_of_append dequeued_of_append
      split: list.splits)

lemma worker_run_fifo: "fifo s \<Longrightarrow> fifo (worker_run i s)"
  by (auto simp: fifo_def worker_run_def set_worker_def packaged_task_call_def
      pushed_of_append dequeued_of_append split: worker.splits option.splits)

lemma single: "length ws = Suc 0 \<Longrightarrow> \<exists>w. ws = [w]"
  by (cases ws) auto

lemma worker_take_in_order:
  "length (workers (pool s)) = 1 \<Longrightarrow> in_order s \<Longrightarrow>
     in_order (worker_take i s) \<and> length (workers (pool (worker_take i s))) = 1"
  by (auto simp: in_order_def worker_take_def Let_def began_of_append dequeued_of_append
      split: list.splits dest!: single)

lemma worker_run_in_order:
  "length (workers (pool s)) = 1 \<Longrightarrow> in_order s \<Longrightarrow>
     in_order (worker_run i s) \<and> length (workers (pool (worker_run i s))) = 1"
  by (auto simp: in_order_def worker_run_def set_worker_def packaged_task_call_def
      began_of_append dequeued_of_append split: worker.splits option.splits dest!: single)

lemma run_total: "\<exists>s'. run as s = Some s'"
proof (induction as arbitrary: s)
  case Nil
  show ?case by simp
next
  case (Cons a as)
  show ?case by (cases a) (simp_all add: enqueue_result Cons.IH)
qed

lemma run_fifo: "run as s = Some s' \<Longrightarrow> fifo s \<Longrightarrow> fifo s'"
proof (induction as arbitrary: s)
  case Nil
  then show ?case by simp
next
  case (Cons a as)
  show ?case
  proof (cases a)
    case (Submit f args)
    with Cons.prems obtain h s1 where e: "enqueue f args s = Some (Inr (h, s1))"
      and r: "run as s1 = Some s'"
      by (auto split: option.splits sum.splits)
    from enqueue_keeps [OF e] Cons.prems(2) have "fifo s1" by blast
    with Cons.IH [OF r] show ?thesis .
  next
    case (Take i)
    with Cons.prems Cons.IH [of "worker_take i s"] show ?thesis
      by (simp add: worker_take_fifo)
  next
    case (Run i)
    with Cons.prems Cons.IH [of "worker_run i s"] show ?thesis
      by (simp add: worker_run_fifo)
  qed
qed

lemma run_in_order:
  "run as s = Some s' \<Longrightarrow> length (workers (pool s)) = 1 \<Longrightarrow> in_order s \<Longrightarrow> in_order s'"
proof (induction as arbitrary: s)
  case Nil
  then show ?case by simp
next
  case (Cons a as)
  show ?case
  proof (cases a)
    case (Submit f args)
    with Cons.prems obtain h s1 where e: "enqueue f args s = Some (Inr (h, s1))"
      and r: "run as s1 = Some s'"
      by (auto split: option.splits sum.splits)
    from enqueue_keeps [OF e] Cons.prems have "in_order s1" "length (workers (pool s1)) = 1"
      by auto
    with Cons.IH [OF r] show ?thesis by blast
  next
    case (Take i)
    with Cons.prems Cons.IH [of "worker_take i s"] worker_take_in_order [of s i] show ?thesis
      by simp
  next
    case (Run i)
    with Cons.prems Cons.IH [of "worker_run i s"] worker_run_in_order [of s i] show ?thesis
      by simp
  qed
qed

section \<open>Submission through \<^verbatim>\<open>thread_pool\<close>\<close>

text \<open>
  Claim C3. For every callable and argument list, \<^verbatim>\<open>thread_pool::enqueue\<close> is
  \<^verbatim>\<open>wait_to_enqueue\<close> with a wait policy that does nothing. It always returns, and
  with the handle of the new task: the task is packaged, pushed at the back of the queue
  between the acquisition and the release of the lock, one worker is notified after the
  release, no tick of the schedule is spent blocked, the clock stands where it stood, and
  the future is not ready yet.
\<close>

theorem enqueue_is_wait_to_enqueue_without_waiting:
  "enqueue f args s = thread_pool_wait_to_enqueue (\<lambda>lck. Some lck) f args s
   \<and> (\<exists>s'. enqueue f args s = Some (Inr (next_id s, s'))
        \<and> tasks (pool s') = tasks (pool s) @ [(next_id s, std_bind f args)]
        \<and> log s' = log s @ [Packed (next_id s), Locked, Pushed (next_id s), Unlocked, Notified_one]
        \<and> sched s' = sched s \<and> now s' = now s
        \<and> future_get (next_id s) s' = None)"
  by (simp add: enqueue_def thread_pool_wait_to_enqueue_def pack_shared_task_def get_future_def
      lock_def unlock_def push_def notify_one_def future_get_def)

text \<open>
  Claim C9. \<^verbatim>\<open>thread_pool::wait_to_enqueue\<close> packages the task and takes its future
  before it acquires the lock, and calls the wait policy with the lock held. If the
  policy returns with the lock held, the assertion passes, the task is pushed onto the
  queue the policy left, then the lock is released, then one worker is notified, and the
  call returns the handle.
\<close>

theorem wait_to_enqueue_protocol:
  assumes "waiter (lock (snd (pack_shared_task f args s))) = Some s3" and "owns s3"
  shows "log (lock (snd (pack_shared_task f args s))) = log s @ [Packed (next_id s), Locked]
     \<and> owns (lock (snd (pack_shared_task f args s)))
     \<and> (\<exists>s'. thread_pool_wait_to_enqueue waiter f args s = Some (Inr (next_id s, s'))
          \<and> tasks (pool s') = tasks (pool s3) @ [(next_id s, std_bind f args)]
          \<and> log s' = log s3 @ [Pushed (next_id s), Unlocked, Notified_one]
          \<and> \<not> owns s')"
  using assms
  by (simp add: thread_pool_wait_to_enqueue_def pack_shared_task_def get_future_def
      lock_def unlock_def push_def notify_one_def)

theorem wait_to_enqueue_protocol_witness:
  "cv_wait (lock (snd (pack_shared_task job 5 (world_of 2 [] [quiet, spurious]))))
     = Some (lock (pass spurious (pass quiet
         (unlock (lock (snd (pack_shared_task job 5 (world_of 2 [] [quiet, spurious]))))))))
   \<and> owns (lock (pass spurious (pass quiet
         (unlock (lock (snd (pack_shared_task job 5 (world_of 2 [] [quiet, spurious]))))))))
   \<and> (\<exists>s'. thread_pool_wait_to_enqueue cv_wait job 5 (world_of 2 [] [quiet, spurious]) = Some (Inr (0, s'))
        \<and> map fst (tasks (pool s')) = [0]
        \<and> log s' = [Packed 0, Locked, Unlocked, Locked, Pushed 0, Unlocked, Notified_one]
        \<and> \<not> owns s')"
proof -
  let ?w = "world_of 2 [] [quiet, spurious]"
  let ?s3 = "lock (pass spurious (pass quiet (unlock (lock (snd (pack_shared_task job 5 ?w))))))"
  have p1: "cv_wait (lock (snd (pack_shared_task job 5 ?w))) = Some ?s3"
    by (simp add: cv_wait_def blocked.simps world_of_def pack_shared_task_def lock_def unlock_def
        pass_def quiet_def spurious_def)
  have p2: "owns ?s3" by (simp add: lock_def)
  from wait_to_enqueue_protocol [of cv_wait job 5 ?w ?s3, OF p1 p2] obtain s' where
    "thread_pool_wait_to_enqueue cv_wait job 5 ?w = Some (Inr (next_id ?w, s'))"
    "tasks (pool s') = tasks (pool ?s3) @ [(next_id ?w, std_bind job 5)]"
    "log s' = log ?s3 @ [Pushed (next_id ?w), Unlocked, Notified_one]"
    "\<not> owns s'"
    by blast
  then have c: "\<exists>s'. thread_pool_wait_to_enqueue cv_wait job 5 ?w = Some (Inr (0, s'))
        \<and> map fst (tasks (pool s')) = [0]
        \<and> log s' = [Packed 0, Locked, Unlocked, Locked, Pushed 0, Unlocked, Notified_one]
        \<and> \<not> owns s'"
    by (intro exI [of _ s'])
       (simp add: world_of_def pack_shared_task_def lock_def unlock_def
        pass_def quiet_def spurious_def task_pool_ctor_def thread_pool_ctor_def)
  show ?thesis by (rule conjI [OF p1 conjI [OF p2 c]])
qed

section \<open>The capacity bound of \<^verbatim>\<open>task_pool\<close>\<close>



text \<open>
  Claim C10. Every public submission member of \<^verbatim>\<open>task_pool\<close> is the base class's
  \<^verbatim>\<open>wait_to_enqueue\<close> around the capacity loop, for some wait policy. On a full queue
  none of them behaves as the base class's \<^verbatim>\<open>enqueue\<close> does, which pushes beyond
  \<^verbatim>\<open>max_tasks\<close> there and which \<^verbatim>\<open>task_pool\<close> does not make public.
\<close>

theorem no_unbounded_public_submission:
  "(\<exists>w. \<forall>f args s. submit opn f args s
        = thread_pool_wait_to_enqueue (while_cannot_enqueue w) f args s)
   \<and> (\<not> can_enqueue_unlocked (pool s) \<longrightarrow>
        submit opn f args s \<noteq> enqueue f args s
        \<and> (\<exists>s'. enqueue f args s = Some (Inr (next_id s, s'))
              \<and> max_tasks (pool s') < size_unlocked (pool s')))"
proof (intro conjI impI)
  show "\<exists>w. \<forall>f args s. submit opn f args s
        = thread_pool_wait_to_enqueue (while_cannot_enqueue w) f args s"
    by (cases opn)
       (auto simp: poll_def poll_for_def poll_until_def wait_def wait_for_def wait_until_def
          task_pool_wait_to_enqueue_def)
next
  assume full: "\<not> can_enqueue_unlocked (pool s)"
  have e: "enqueue f args s = Some (Inr (next_id s,
      notify_one (unlock (push (next_id s, std_bind f args) (lock (snd (pack_shared_task f args s)))))))"
    by (simp add: enqueue_def thread_pool_wait_to_enqueue_def pack_shared_task_def get_future_def
        lock_def)
  have big: "max_tasks (pool (notify_one (unlock (push (next_id s, std_bind f args)
        (lock (snd (pack_shared_task f args s))))))) < size_unlocked (pool (notify_one (unlock
        (push (next_id s, std_bind f args) (lock (snd (pack_shared_task f args s)))))))"
    using full
    by (simp add: finish_fields finish_max_tasks entry_fields size_unlocked_def
        can_enqueue_unlocked_def)
  show "submit opn f args s \<noteq> enqueue f args s"
  proof
    assume "submit opn f args s = enqueue f args s"
    with e submit_bounded [of opn f args s] big show False by fastforce
  qed
  from e big show "\<exists>s'. enqueue f args s = Some (Inr (next_id s, s'))
      \<and> max_tasks (pool s') < size_unlocked (pool s')"
    by blast
qed

theorem no_unbounded_public_submission_witness:
  "\<not> can_enqueue_unlocked (pool (world_of 1 [(7, std_bind job 0)] [quiet, served]))
   \<and> submit Wait job 5 (world_of 1 [(7, std_bind job 0)] [quiet, served])
       \<noteq> enqueue job 5 (world_of 1 [(7, std_bind job 0)] [quiet, served])
   \<and> (\<exists>s'. enqueue job 5 (world_of 1 [(7, std_bind job 0)] [quiet, served]) = Some (Inr (0, s'))
         \<and> max_tasks (pool s') < size_unlocked (pool s'))
   \<and> (\<exists>w. \<forall>f args s. submit Wait f args s
        = thread_pool_wait_to_enqueue (while_cannot_enqueue w) (f :: int \<Rightarrow> result) args s)"
proof -
  let ?w = "world_of 1 [(7, std_bind job 0)] [quiet, served]"
  have full: "\<not> can_enqueue_unlocked (pool ?w)"
    by (simp add: model_defs example_defs)
  have z: "next_id ?w = 0" by (simp add: world_of_def)
  from no_unbounded_public_submission [of Wait ?w job 5] full z
  show ?thesis by (simp only: simp_thms) blast
qed

section \<open>Predicate-gated and timed submission\<close>







text \<open>
  Claim C5, as stated: \<^verbatim>\<open>task_pool::poll\<close> admits the task only once the caller's
  predicate and \<^verbatim>\<open>can_enqueue_unlocked()\<close> hold at the same evaluation. It fails: on an
  empty queue \<^verbatim>\<open>poll\<close> with a predicate that is always false pushes the task at once;
  the capacity loop finds room and never calls the wait, so the predicate is not
  evaluated at all.
\<close>

theorem poll_skips_predicate_counterexample:
  "(case poll (\<lambda>_ _. False) job 5 (world_of 1 [] []) of
      Some (Inr (h, s')) \<Rightarrow>
        map fst (tasks (pool s')) = [h]
        \<and> log s' = [Packed h, Locked, Pushed h, Unlocked, Notified_one]
    | Some (Inl e) \<Rightarrow> False
    | None \<Rightarrow> False)"
  by (simp add: model_defs example_defs)

text \<open>
  Claim C5, amended. \<^verbatim>\<open>can_enqueue_unlocked()\<close> is true exactly when the queue is
  shorter than \<^verbatim>\<open>max_tasks\<close>. \<^verbatim>\<open>task_pool::poll\<close> admits the task in a state, under
  the lock, in which \<^verbatim>\<open>can_enqueue_unlocked()\<close> holds. If the queue was full on entry,
  the predicate and \<^verbatim>\<open>can_enqueue_unlocked()\<close> held at the same, last evaluation before
  the push, and the combined condition was evaluated on entry and again after every
  wake, each false evaluation being followed by another wait.
\<close>

theorem poll_admission:
  "can_enqueue_unlocked q = (length (tasks q) < max_tasks q)
   \<and> (poll p f args s = Some (Inr (h, s')) \<longrightarrow>
       (\<exists>s1. owns s1 \<and> can_enqueue_unlocked (pool s1)
          \<and> s' = notify_one (unlock (push (h, std_bind f args) s1))
          \<and> (if can_enqueue_unlocked (pool s) then s1 = lock (snd (pack_shared_task f args s))
             else p (now s1) (ext s1)
               \<and> (\<exists>k. log s1 = log s @ [Packed h, Locked] @ rounds (Suc k) @ [Evaluated True]))))"
proof (intro conjI impI)
  show "can_enqueue_unlocked q = (length (tasks q) < max_tasks q)"
    by (simp add: can_enqueue_unlocked_def size_unlocked_def)
next
  let ?s0 = "lock (snd (pack_shared_task f args s))"
  let ?w = "\<lambda>lck. cv_wait_pred (combined p) lck"
  assume "poll p f args s = Some (Inr (h, s'))"
  then have "thread_pool_wait_to_enqueue (while_cannot_enqueue ?w) f args s = Some (Inr (h, s'))"
    by (simp add: poll_def task_pool_wait_to_enqueue_def)
  from wait_to_enqueue_returns [OF this] obtain s3 where
    loop: "while_cannot_enqueue ?w ?s0 = Some s3" and o: "owns s3" and h: "h = next_id s"
    and s': "s' = notify_one (unlock (push (next_id s, std_bind f args) s3))"
    by blast
  have c3: "can_enqueue_unlocked (pool s3)" using loop by (rule while_cannot_enqueue_exit)
  have p0: "pool ?s0 = pool s" by (simp add: entry_fields)
  show "\<exists>s1. owns s1 \<and> can_enqueue_unlocked (pool s1)
          \<and> s' = notify_one (unlock (push (h, std_bind f args) s1))
          \<and> (if can_enqueue_unlocked (pool s) then s1 = lock (snd (pack_shared_task f args s))
             else p (now s1) (ext s1)
               \<and> (\<exists>k. log s1 = log s @ [Packed h, Locked] @ rounds (Suc k) @ [Evaluated True]))"
  proof (cases "can_enqueue_unlocked (pool s)")
    case True
    with loop p0 have "s3 = ?s0" by (subst (asm) while_cannot_enqueue.simps) simp
    with o c3 s' h True show ?thesis by auto
  next
    case False
    with loop p0 obtain s1 where w: "cv_wait_pred (combined p) ?s0 = Some s1"
      and l: "while_cannot_enqueue ?w s1 = Some s3"
      by (subst (asm) while_cannot_enqueue.simps) (auto simp: bind_eq_Some_conv)
    from False p0 have "\<not> can_enqueue_unlocked (pool ?s0)" by simp
    from poll_waited [OF this w] obtain k where c: "combined p s1"
      and k: "log s1 = log ?s0 @ rounds (Suc k) @ [Evaluated True]" by blast
    from c have "can_enqueue_unlocked (pool s1)" by (simp add: combined_def)
    with l have "s3 = s1" by (subst (asm) while_cannot_enqueue.simps) simp
    with o c3 s' h False c k show ?thesis
      by (intro exI [of _ s1]) (auto simp: combined_def entry_fields)
  qed
qed

theorem poll_admission_witness:
  "\<exists>h s'. poll (\<lambda>t x. True) job 5 (world_of 1 [(7, std_bind job 0)] [spurious, served])
       = Some (Inr (h, s'))
     \<and> log s' = [Packed h, Locked, Evaluated False, Unlocked, Locked, Evaluated False,
                  Unlocked, Locked, Evaluated True, Pushed h, Unlocked, Notified_one]
     \<and> (\<exists>s1. owns s1 \<and> can_enqueue_unlocked (pool s1)
          \<and> s' = notify_one (unlock (push (h, std_bind job 5) s1))
          \<and> (\<exists>k. log s1 = [Packed h, Locked] @ rounds (Suc k) @ [Evaluated True]))"
proof -
  let ?w = "world_of 1 [(7, std_bind job 0)] [spurious, served]"
  have "\<exists>h s'. poll (\<lambda>t x. True) job 5 ?w = Some (Inr (h, s'))
     \<and> log s' = [Packed h, Locked, Evaluated False, Unlocked, Locked, Evaluated False,
                  Unlocked, Locked, Evaluated True, Pushed h, Unlocked, Notified_one]"
    by (simp add: model_defs example_defs)
  then obtain h s' where r: "poll (\<lambda>t x. True) job 5 ?w = Some (Inr (h, s'))"
    and l: "log s' = [Packed h, Locked, Evaluated False, Unlocked, Locked, Evaluated False,
                  Unlocked, Locked, Evaluated True, Pushed h, Unlocked, Notified_one]"
    by blast
  have full: "\<not> can_enqueue_unlocked (pool ?w)" "log ?w = []"
    by (simp_all add: model_defs example_defs)
  from poll_admission [of "pool ?w" "\<lambda>t x. True" job 5 ?w h s'] r full
  have "\<exists>s1. owns s1 \<and> can_enqueue_unlocked (pool s1)
          \<and> s' = notify_one (unlock (push (h, std_bind job 5) s1))
          \<and> (\<exists>k. log s1 = [Packed h, Locked] @ rounds (Suc k) @ [Evaluated True])"
    by auto
  with r l show ?thesis by blast
qed

section \<open>The capacity is fixed\<close>

text \<open>
  Claim C7. A \<^verbatim>\<open>task_pool\<close> constructed with worker count \<open>n\<close> has
  \<^verbatim>\<open>max_tasks = max(n, 1)\<close>, which is its number of workers and what
  \<^verbatim>\<open>get_max_task_num\<close> returns. No public submission changes it (for
  \<^verbatim>\<open>task_pool::wait_to_enqueue\<close>, given a wait policy that leaves the private member
  alone, as it must), nor do \<^verbatim>\<open>reset\<close> and the workers' steps; \<^verbatim>\<open>reset\<close> rebuilds the
  workers in their original number.
\<close>

theorem max_tasks_fixed:
  "get_max_task_num (task_pool_ctor n on_enter on_exit) = max n 1
   \<and> length (workers (task_pool_ctor n on_enter on_exit))
       = get_max_task_num (task_pool_ctor n on_enter on_exit)
   \<and> ((\<forall>w x y. opn = Wait_to_enqueue w \<longrightarrow> w x = Some y \<longrightarrow> max_tasks (pool y) = max_tasks (pool x))
        \<and> submit opn f args s = Some (Inr (h, s')) \<longrightarrow>
      get_max_task_num (pool s') = get_max_task_num (pool s))
   \<and> get_max_task_num (pool (reset s)) = get_max_task_num (pool s)
   \<and> length (workers (pool (reset s))) = max (length (workers (pool s))) 1
   \<and> get_max_task_num (pool (worker_take i s)) = get_max_task_num (pool s)
   \<and> get_max_task_num (pool (worker_run i s)) = get_max_task_num (pool s)"
proof (intro conjI impI)
  assume a: "(\<forall>w x y. opn = Wait_to_enqueue w \<longrightarrow> w x = Some y \<longrightarrow> max_tasks (pool y) = max_tasks (pool x))
        \<and> submit opn f args s = Some (Inr (h, s'))"
  then have r: "submit opn f args s = Some (Inr (h, s'))" by (rule conjunct2)
  have "max_tasks (pool s') = max_tasks (pool s)"
  proof (rule submit_max_tasks [OF _ r])
    fix w x y
    assume "opn = Wait_to_enqueue w" "w x = Some y"
    with a show "max_tasks (pool y) = max_tasks (pool x)" by blast
  qed
  then show "get_max_task_num (pool s') = get_max_task_num (pool s)"
    by (simp add: get_max_task_num_def)
next
  show "get_max_task_num (pool (worker_take i s)) = get_max_task_num (pool s)"
    unfolding get_max_task_num_def by (rule max_tasks_more [OF worker_take_queue(2)])
  show "get_max_task_num (pool (worker_run i s)) = get_max_task_num (pool s)"
    unfolding get_max_task_num_def by (rule max_tasks_more [OF worker_run_queue(2)])
next
  show "get_max_task_num (task_pool_ctor n on_enter on_exit) = max n 1"
    by (simp add: get_max_task_num_def task_pool_ctor_def Let_def)
  show "length (workers (task_pool_ctor n on_enter on_exit))
       = get_max_task_num (task_pool_ctor n on_enter on_exit)"
    by (simp add: get_max_task_num_def task_pool_ctor_def thread_pool_ctor_def Let_def)
  show "get_max_task_num (pool (reset s)) = get_max_task_num (pool s)"
    by (simp add: get_max_task_num_def reset_def Let_def)
  show "length (workers (pool (reset s))) = max (length (workers (pool s))) 1"
    by (simp add: reset_def thread_pool_ctor_def Let_def)
qed


theorem max_tasks_fixed_witness:
  "(\<exists>h s'. submit (Wait_to_enqueue cv_wait) job 5
          (world_of 3 [(7, std_bind job 0), (8, std_bind job 0), (9, std_bind job 0)] [served])
            = Some (Inr (h, s'))
        \<and> get_max_task_num (pool s') = 3)
   \<and> get_max_task_num (task_pool_ctor 0 None None) = 1
   \<and> get_max_task_num (pool (reset (world_of 3 [(7, std_bind job 0)] []))) = 3"
proof -
  let ?w = "world_of 3 [(7, std_bind job 0), (8, std_bind job 0), (9, std_bind job 0)] [served]"
  have fr: "\<forall>w x y. Wait_to_enqueue cv_wait = Wait_to_enqueue w \<longrightarrow> w x = Some y
      \<longrightarrow> max_tasks (pool y) = max_tasks (pool x)"
    by (auto dest!: cv_wait_frame max_tasks_more)
  have "\<exists>h s'. submit (Wait_to_enqueue cv_wait) job 5 ?w = Some (Inr (h, s'))"
    by (simp add: model_defs example_defs)
  then obtain h s' where r: "submit (Wait_to_enqueue cv_wait) job 5 ?w = Some (Inr (h, s'))"
    by blast
  have m: "get_max_task_num (pool ?w) = 3"
    by (simp add: model_defs example_defs)
  have m1: "get_max_task_num (pool (world_of 3 [(7, std_bind job 0)] [])) = 3"
    by (simp add: model_defs example_defs)
  note t = max_tasks_fixed [of 0 None None "Wait_to_enqueue cv_wait" job 5 ?w h s']
  note t1 = max_tasks_fixed [of 0 None None Wait job 5 "world_of 3 [(7, std_bind job 0)] []"]
  from t fr r m have a: "\<exists>h s'. submit (Wait_to_enqueue cv_wait) job 5 ?w = Some (Inr (h, s'))
        \<and> get_max_task_num (pool s') = 3"
    by (intro exI [of _ h] exI [of _ s']) simp
  from t have b: "get_max_task_num (task_pool_ctor 0 None None) = 1" by simp
  from t1 m1 have c: "get_max_task_num (pool (reset (world_of 3 [(7, std_bind job 0)] []))) = 3"
    by simp
  show ?thesis by (rule conjI [OF a conjI [OF b c]])
qed

section \<open>Workers: order of service and failing tasks\<close>

text \<open>
  Claim C8, as stated: of two tasks, the one pushed first is popped first and begins
  executing first. The second half fails with two workers: worker 0 pops the first task
  and worker 1 the second; execution happens outside the lock, so worker 1 may begin
  before worker 0 does. The tasks are pushed and dequeued in the order 0, 1 and begin in
  the order 1, 0.
\<close>

theorem execution_order_counterexample:
  "(case run [Submit job 1, Submit job 2, Take 0, Take 1, Run 1, Run 0] (world_of 2 [] []) of
      Some s' \<Rightarrow>
        pushed_of (log s') = [0, 1] \<and> dequeued_of (log s') = [0, 1] \<and> began_of (log s') = [1, 0]
    | None \<Rightarrow> False)"
  by (simp add: model_defs example_defs)

text \<open>
  Claim C8, amended. Tasks are dequeued in the order of their admission: in every run of
  submissions and worker steps, which always exists, the handles dequeued so far followed
  by those still in the queue are the handles pushed, in the order of the pushes. With a
  single worker the tasks also begin executing in that order.
\<close>

theorem fifo_dequeue:
  "(\<exists>s'. run as s = Some s')
   \<and> (run as s = Some s'
        \<and> pushed_of (log s) = dequeued_of (log s) @ map fst (tasks (pool s)) \<longrightarrow>
      pushed_of (log s') = dequeued_of (log s') @ map fst (tasks (pool s')))
   \<and> (run as s = Some s' \<and> length (workers (pool s)) = 1
        \<and> began_of (log s) @ map fst (held (workers (pool s))) = dequeued_of (log s) \<longrightarrow>
      began_of (log s') @ map fst (held (workers (pool s'))) = dequeued_of (log s'))"
  using run_total [of as s] run_fifo [of as s s'] run_in_order [of as s s']
  by (simp add: fifo_def in_order_def)

theorem fifo_dequeue_witness:
  "\<exists>s'. run [Submit job 1, Submit job 2, Take 0, Run 0, Submit job 3, Take 0, Run 0, Take 0]
        (world_of 1 [] []) = Some s'
     \<and> pushed_of (log s') = [0, 1, 2]
     \<and> pushed_of (log s') = dequeued_of (log s') @ map fst (tasks (pool s'))
     \<and> began_of (log s') = [0, 1]
     \<and> began_of (log s') @ map fst (held (workers (pool s'))) = dequeued_of (log s')"
proof -
  let ?as = "[Submit job 1, Submit job 2, Take 0, Run 0, Submit job 3, Take 0, Run 0, Take 0]"
  let ?w = "world_of 1 [] []"
  have "\<exists>s'. run ?as ?w = Some s' \<and> pushed_of (log s') = [0, 1, 2] \<and> began_of (log s') = [0, 1]"
    by (simp add: model_defs example_defs)
  then obtain s' where r: "run ?as ?w = Some s'" and p: "pushed_of (log s') = [0, 1, 2]"
    and b: "began_of (log s') = [0, 1]" by blast
  have i: "pushed_of (log ?w) = dequeued_of (log ?w) @ map fst (tasks (pool ?w))"
    "length (workers (pool ?w)) = 1"
    "began_of (log ?w) @ map fst (held (workers (pool ?w))) = dequeued_of (log ?w)"
    by (simp_all add: model_defs example_defs)
  from fifo_dequeue [of ?as ?w s'] r i
  have "pushed_of (log s') = dequeued_of (log s') @ map fst (tasks (pool s'))"
    and "began_of (log s') @ map fst (held (workers (pool s'))) = dequeued_of (log s')"
    by blast+
  with r p b show ?thesis by blast
qed

text \<open>
  Claim C6. A submitted task whose callable fails is queued as any other and its future
  is not ready. When a worker takes it from the front of the queue and runs it, the
  failure is stored in the shared state, where \<^verbatim>\<open>get\<close> on the future finds it; the
  worker is idle again, not terminated; the rest of the queue and every other shared
  state are as they were; and the pool accepts the next submission.
\<close>

theorem task_failure_is_captured:
  "(\<exists>s1. enqueue f args s = Some (Inr (next_id s, s1))
        \<and> tasks (pool s1) = tasks (pool s) @ [(next_id s, std_bind f args)]
        \<and> future_get (next_id s) s1 = None)
   \<and> (f args = Failure e \<and> tasks (pool x) = (h, std_bind f args) # rest \<and> cells x h = None
        \<and> i < length (workers (pool x)) \<and> workers (pool x) ! i = Idle \<longrightarrow>
       (let x2 = worker_run i (worker_take i x) in
          future_get h x2 = Some (Inl e) \<and> workers (pool x2) ! i = Idle
          \<and> tasks (pool x2) = rest
          \<and> (\<forall>h'. h' \<noteq> h \<longrightarrow> cells x2 h' = cells x h')
          \<and> (\<exists>x3. enqueue g a x2 = Some (Inr (next_id x2, x3)))))"
proof (intro conjI impI)
  show "\<exists>s1. enqueue f args s = Some (Inr (next_id s, s1))
        \<and> tasks (pool s1) = tasks (pool s) @ [(next_id s, std_bind f args)]
        \<and> future_get (next_id s) s1 = None"
    by (simp add: enqueue_result finish_fields entry_fields future_get_def)
next
  assume a: "f args = Failure e \<and> tasks (pool x) = (h, std_bind f args) # rest \<and> cells x h = None
        \<and> i < length (workers (pool x)) \<and> workers (pool x) ! i = Idle"
  let ?x1 = "worker_take i x"
  from a have t: "workers (pool ?x1) ! i = Holding (h, std_bind f args)"
    "tasks (pool ?x1) = rest" "cells ?x1 = cells x" "i < length (workers (pool ?x1))"
    by (simp_all add: worker_take_def Let_def)
  from a have v: "std_bind f args () = Failure e" by (simp add: std_bind_def)
  from t a v show "let x2 = worker_run i (worker_take i x) in
          future_get h x2 = Some (Inl e) \<and> workers (pool x2) ! i = Idle
          \<and> tasks (pool x2) = rest
          \<and> (\<forall>h'. h' \<noteq> h \<longrightarrow> cells x2 h' = cells x h')
          \<and> (\<exists>x3. enqueue g a x2 = Some (Inr (next_id x2, x3)))"
    by (simp add: Let_def worker_run_def packaged_task_call_def set_worker_def future_get_def
        enqueue_result)
qed

theorem task_failure_is_captured_witness:
  "\<exists>x. run [Submit failing 5, Submit job 1] (world_of 1 [] []) = Some x
     \<and> future_get 0 x = None
     \<and> future_get 0 (worker_run 0 (worker_take 0 x)) = Some (Inl (Exn 3))
     \<and> workers (pool (worker_run 0 (worker_take 0 x))) ! 0 = Idle
     \<and> tasks (pool (worker_run 0 (worker_take 0 x))) = [(1, std_bind job 1)]
     \<and> future_get 1 (worker_run 0 (worker_take 0 (worker_run 0 (worker_take 0 x)))) = Some (Inr 2)"
proof -
  let ?w = "world_of 1 [] []"
  have "\<exists>x. run [Submit failing 5, Submit job 1] ?w = Some x
     \<and> tasks (pool x) = [(0, std_bind failing 5), (1, std_bind job 1)]
     \<and> cells x 0 = None \<and> workers (pool x) = [Idle]
     \<and> future_get 1 (worker_run 0 (worker_take 0 (worker_run 0 (worker_take 0 x)))) = Some (Inr 2)"
    by (simp add: model_defs example_defs)
  then obtain x where r: "run [Submit failing 5, Submit job 1] ?w = Some x"
    and q: "tasks (pool x) = [(0, std_bind failing 5), (1, std_bind job 1)]"
    and c: "cells x 0 = None" and ws: "workers (pool x) = [Idle]"
    and l: "future_get 1 (worker_run 0 (worker_take 0 (worker_run 0 (worker_take 0 x)))) = Some (Inr 2)"
    by blast
  have f: "failing 5 = Failure (Exn 3)" by (simp add: failing_def)
  from task_failure_is_captured [of failing 5 ?w "Exn 3" x 0 "[(1, std_bind job 1)]" 0 job 1]
    f q c ws
  have "future_get 0 (worker_run 0 (worker_take 0 x)) = Some (Inl (Exn 3))"
    "workers (pool (worker_run 0 (worker_take 0 x))) ! 0 = Idle"
    "tasks (pool (worker_run 0 (worker_take 0 x))) = [(1, std_bind job 1)]"
    by (simp_all add: Let_def)
  moreover from c have "future_get 0 x = None" by (simp add: future_get_def)
  ultimately show ?thesis using r l by blast
qed

end
